theory Spec2Isabelle
  imports
    Complex_Main
    "HOL-Library.AList"
    "HOL-Library.Log_Nat"
    "HOL-Library.Sublist"
begin

section \<open>Python dictionaries as insertion-ordered association lists\<close>

text \<open>
  A Python \<open>dict\<close> keeps its keys in insertion order, assigning to a present key keeps
  the key's position, and \<open>del\<close> removes the key. \<^const>\<open>AList.update\<close> and
  \<^const>\<open>AList.delete\<close> behave in exactly this way, and \<^const>\<open>map_of\<close> is the lookup.
  Items are Python strings. Python integers are unbounded, hence \<^typ>\<open>int\<close>.
\<close>

type_synonym item = string

type_synonym adjacency = "(item \<times> (item \<times> int) list) list"

section \<open>Python numbers\<close>

text \<open>
  A Python \<open>float\<close> is an IEEE 754 binary64 number. A finite float is modelled by the
  rational number it denotes, and every arithmetic operation on floats returns its exact
  result rounded to the nearest binary64 value, ties to the even significand:
  \<open>round_double\<close>. A binary64 value is \<open>m * 2^q\<close> with \<open>|m| < 2^53\<close> and \<open>q \<ge> -1074\<close>; for
  \<open>2^e \<le> |x| < 2^(e+1)\<close> the spacing of the values around \<open>x\<close> is \<open>2^q\<close> with
  \<open>q = max (e - 52) (-1074)\<close>, the second case being the subnormal range. Infinities and
  NaN are not modelled: the model covers the operations whose results stay below \<open>2^1024\<close>.
\<close>

definition pow2 :: "int \<Rightarrow> rat" where
  "pow2 n = (if n \<ge> 0 then 2 ^ nat n else 1 / 2 ^ nat (- n))"

text \<open>
  For \<open>x > 0\<close>, \<open>floor_log2 x\<close> is the exponent \<open>e\<close> with \<open>2^e \<le> x < 2^(e+1)\<close>, computed
  from the bit lengths of numerator and denominator.
\<close>

definition floor_log2 :: "rat \<Rightarrow> int" where
  "floor_log2 x =
     (let (p, q) = quotient_of x; d = bitlen p - bitlen q
      in if pow2 d \<le> x then d else d - 1)"

definition round_half_even :: "rat \<Rightarrow> int" where
  "round_half_even x =
     (let f = \<lfloor>x\<rfloor>; d = x - of_int f
      in if d < 1 / 2 then f
         else if d > 1 / 2 then f + 1
         else if even f then f else f + 1)"

definition round_double :: "rat \<Rightarrow> rat" where
  "round_double x =
     (if x = 0 then 0
      else let q = max (floor_log2 \<bar>x\<bar> - 52) (- 1074)
           in sgn x * of_int (round_half_even (\<bar>x\<bar> / pow2 q)) * pow2 q)"

text \<open>
  The conversion of an \<open>int\<close> operand to \<open>float\<close>, the product of two floats, and the two
  true divisions: \<open>int / int\<close> rounds the exact quotient of the integers, \<open>float / float\<close>
  the exact quotient of the floats. Both raise \<open>ZeroDivisionError\<close> on a zero divisor.
\<close>

datatype py_error = ZeroDivisionError

definition float_of_int :: "int \<Rightarrow> rat" where
  "float_of_int n = round_double (of_int n)"

definition float_mul :: "rat \<Rightarrow> rat \<Rightarrow> rat" where
  "float_mul x y = round_double (x * y)"

definition int_truediv :: "int \<Rightarrow> int \<Rightarrow> py_error + rat" where
  "int_truediv a b =
     (if b = 0 then Inl ZeroDivisionError else Inr (round_double (of_int a / of_int b)))"

definition float_truediv :: "rat \<Rightarrow> rat \<Rightarrow> py_error + rat" where
  "float_truediv x y = (if y = 0 then Inl ZeroDivisionError else Inr (round_double (x / y)))"

section \<open>graph.py: class ProductGraph\<close>

record product_graph =
  graph_dict :: adjacency
  nodes :: "item set"

definition empty_graph :: product_graph where
  "empty_graph = \<lparr>graph_dict = [], nodes = {}\<rparr>"

text \<open>
  \<open>self.graph\<close> is a \<open>defaultdict(dict)\<close>: reading \<open>self.graph[k]\<close> for a missing key
  first stores an empty dictionary under \<open>k\<close>.
\<close>

definition dd_touch :: "item \<Rightarrow> adjacency \<Rightarrow> adjacency" where
  "dd_touch k d = (case map_of d k of None \<Rightarrow> AList.update k [] d | Some row \<Rightarrow> d)"

definition dd_row :: "adjacency \<Rightarrow> item \<Rightarrow> (item \<times> int) list" where
  "dd_row d k = (case map_of d k of None \<Rightarrow> [] | Some row \<Rightarrow> row)"

definition add_node :: "item \<Rightarrow> product_graph \<Rightarrow> product_graph" where
  "add_node item g =
     (if item \<notin> nodes g
      then g\<lparr>nodes := insert item (nodes g),
             graph_dict := (if map_of (graph_dict g) item = None
                            then AList.update item [] (graph_dict g)
                            else graph_dict g)\<rparr>
      else g)"

text \<open>
  One direction of \<open>add_edge\<close>: \<open>if item2 in self.graph[item1]: self.graph[item1][item2] += weight\<close>,
  \<open>else: self.graph[item1][item2] = weight\<close>.
\<close>

definition add_weight :: "item \<Rightarrow> item \<Rightarrow> int \<Rightarrow> adjacency \<Rightarrow> adjacency" where
  "add_weight item1 item2 weight d =
     (let d1 = dd_touch item1 d;
          row = dd_row d1 item1
      in AList.update item1
           (case map_of row item2 of
              Some w \<Rightarrow> AList.update item2 (w + weight) row
            | None \<Rightarrow> AList.update item2 weight row) d1)"

definition add_edge :: "item \<Rightarrow> item \<Rightarrow> int \<Rightarrow> product_graph \<Rightarrow> product_graph" where
  "add_edge item1 item2 weight g =
     (let g1 = add_node item1 g;
          g2 = add_node item2 g1;
          d1 = add_weight item1 item2 weight (graph_dict g2);
          d2 = add_weight item2 item1 weight d1
      in g2\<lparr>graph_dict := d2\<rparr>)"

definition get_neighbors :: "product_graph \<Rightarrow> item \<Rightarrow> (item \<times> int) list" where
  "get_neighbors g item =
     (case map_of (graph_dict g) item of Some row \<Rightarrow> row | None \<Rightarrow> [])"

definition get_edge_weight :: "product_graph \<Rightarrow> item \<Rightarrow> item \<Rightarrow> int" where
  "get_edge_weight g item1 item2 =
     (case map_of (graph_dict g) item1 of
        None \<Rightarrow> 0
      | Some row \<Rightarrow> (case map_of row item2 of None \<Rightarrow> 0 | Some w \<Rightarrow> w))"

definition get_node_count :: "product_graph \<Rightarrow> int" where
  "get_node_count g = int (card (nodes g))"

definition get_edge_count :: "product_graph \<Rightarrow> int" where
  "get_edge_count g =
     fold (\<lambda>node edge_count. edge_count + int (length (dd_row (graph_dict g) node)))
          (map fst (graph_dict g)) 0 div 2"

definition get_degree :: "product_graph \<Rightarrow> item \<Rightarrow> int" where
  "get_degree g item =
     (case map_of (graph_dict g) item of Some row \<Rightarrow> int (length row) | None \<Rightarrow> 0)"

text \<open>
  \<open>remove_node\<close>: the loop runs over a snapshot \<open>list(self.graph[item].keys())\<close> and
  deletes \<open>item\<close> from the row of every neighbour that still has one.
\<close>

definition drop_back_edge :: "item \<Rightarrow> item \<Rightarrow> adjacency \<Rightarrow> adjacency" where
  "drop_back_edge item neighbor d =
     (case map_of d neighbor of
        None \<Rightarrow> d
      | Some row \<Rightarrow> (if map_of row item \<noteq> None
                     then AList.update neighbor (AList.delete item row) d
                     else d))"

definition remove_node :: "item \<Rightarrow> product_graph \<Rightarrow> product_graph" where
  "remove_node item g =
     (if item \<notin> nodes g then g
      else let d0 = dd_touch item (graph_dict g);
               d1 = fold (drop_back_edge item) (map fst (dd_row d0 item)) d0
           in g\<lparr>graph_dict := AList.delete item d1, nodes := nodes g - {item}\<rparr>)"

text \<open>The graphs a program can build: the constructor followed by any calls of the mutators.\<close>

inductive reachable :: "product_graph \<Rightarrow> bool" where
  r_init: "reachable empty_graph"
| r_add_node: "reachable g \<Longrightarrow> reachable (add_node a g)"
| r_add_edge: "reachable g \<Longrightarrow> reachable (add_edge a b w g)"
| r_remove_node: "reachable g \<Longrightarrow> reachable (remove_node a g)"

text \<open>
  \<open>get_graph_info\<close> returns a dictionary from strings to numbers. The two quotients are
  true divisions of integers, whose divisors are not zero in their branch. The list
  \<open>degrees\<close> has one entry per element of the set \<open>self.nodes\<close>, so its sum, length,
  maximum and minimum are those of the degree function over the set.
\<close>

definition get_graph_info :: "product_graph \<Rightarrow> (string \<times> rat) list" where
  "get_graph_info g =
     (if nodes g = {}
      then [(''num_nodes'', 0), (''num_edges'', 0), (''avg_degree'', 0),
            (''max_degree'', 0), (''min_degree'', 0)]
      else
        let n = int (card (nodes g)) in
        [(''num_nodes'', of_int n),
         (''num_edges'', of_int (get_edge_count g)),
         (''avg_degree'', if nodes g \<noteq> {}
                          then round_double
                                 (of_int (\<Sum>node\<in>nodes g. get_degree g node) / of_int n)
                          else 0),
         (''max_degree'', if nodes g \<noteq> {} then of_int (Max (get_degree g ` nodes g)) else 0),
         (''min_degree'', if nodes g \<noteq> {} then of_int (Min (get_degree g ` nodes g)) else 0),
         (''density'', if n > 1
                       then round_double
                              (of_int (2 * get_edge_count g) / of_int (n * (n - 1)))
                       else 0)])"

section \<open>mining.py: class FrequentItemsetMiner\<close>

text \<open>
  Python compares strings lexicographically by code point; \<open>sorted\<close> is modelled by
  insertion sort on that order. \<open>min_support\<close>, \<open>min_confidence\<close>, support, confidence
  and lift are floats.
\<close>

fun str_le :: "string \<Rightarrow> string \<Rightarrow> bool" where
  "str_le [] ys = True"
| "str_le (x # xs) [] = False"
| "str_le (x # xs) (y # ys) = ((of_char x :: nat) < of_char y \<or> (x = y \<and> str_le xs ys))"

fun insert_item :: "item \<Rightarrow> item list \<Rightarrow> item list" where
  "insert_item x [] = [x]"
| "insert_item x (y # ys) = (if str_le x y then x # y # ys else y # insert_item x ys)"

definition sorted_py :: "item list \<Rightarrow> item list" where
  "sorted_py xs = foldr insert_item xs []"

text \<open>\<open>itertools.combinations(xs, k)\<close>: the length-\<open>k\<close> subsequences by position, in order.\<close>

fun combinations :: "'a list \<Rightarrow> nat \<Rightarrow> 'a list list" where
  "combinations xs 0 = [[]]"
| "combinations [] (Suc k) = []"
| "combinations (x # xs) (Suc k) = map ((#) x) (combinations xs k) @ combinations xs (Suc k)"

text \<open>\<open>d[k] += 1\<close> on a \<open>defaultdict(int)\<close>, and \<open>d.get(k, 0)\<close>.\<close>

definition count_of :: "('k \<times> int) list \<Rightarrow> 'k \<Rightarrow> int" where
  "count_of d k = (case map_of d k of None \<Rightarrow> 0 | Some c \<Rightarrow> c)"

definition incr :: "'k \<Rightarrow> ('k \<times> int) list \<Rightarrow> ('k \<times> int) list" where
  "incr k d = AList.update k (count_of d k + 1) d"

text \<open>\<open>int(x)\<close> truncates towards zero.\<close>

definition py_int :: "rat \<Rightarrow> int" where
  "py_int x = (if x < 0 then \<lceil>x\<rceil> else \<lfloor>x\<rfloor>)"

text \<open>
  \<open>__init__\<close>: \<open>self.min_support * self.num_transactions\<close> is a product of a float and an
  \<open>int\<close>, so the length is converted to a float and the product is rounded before
  \<open>int\<close> truncates it.
\<close>

definition min_support_count :: "item list list \<Rightarrow> rat \<Rightarrow> int" where
  "min_support_count transactions min_support =
     (let c = py_int (float_mul min_support (float_of_int (int (length transactions))))
      in if c < 1 then 1 else c)"

text \<open>
  The counting dictionaries \<open>item_counts\<close>, \<open>pair_counts\<close> and \<open>itemset_counts\<close> that the
  three mining methods build before they filter by \<open>min_support_count\<close>.
\<close>

definition item_counts :: "item list list \<Rightarrow> (item set \<times> int) list" where
  "item_counts transactions =
     fold (\<lambda>transaction d. fold (\<lambda>item. incr {item}) transaction d) transactions []"

definition pair_counts :: "item list list \<Rightarrow> ((item \<times> item) \<times> int) list" where
  "pair_counts transactions =
     fold (\<lambda>transaction d.
             if length transaction \<ge> 2
             then fold (\<lambda>c. incr (c ! 0, c ! 1)) (combinations (sorted_py transaction) 2) d
             else d) transactions []"

definition itemset_counts :: "item list list \<Rightarrow> int \<Rightarrow> (item set \<times> int) list" where
  "itemset_counts transactions k =
     fold (\<lambda>transaction d.
             if int (length transaction) \<ge> k
             then fold (\<lambda>itemset. incr (set itemset))
                    (combinations (sorted_py transaction) (nat k)) d
             else d) transactions []"

definition find_frequent_1_itemsets :: "item list list \<Rightarrow> rat \<Rightarrow> (item set \<times> int) list" where
  "find_frequent_1_itemsets transactions min_support =
     filter (\<lambda>(itemset, count). count \<ge> min_support_count transactions min_support)
       (item_counts transactions)"

text \<open>
  \<open>list.sort(key=count, reverse=True)\<close> is stable: pairs with equal counts keep their order.
\<close>

definition find_frequent_pairs ::
  "item list list \<Rightarrow> rat \<Rightarrow> ((item \<times> item) \<times> int) list" where
  "find_frequent_pairs transactions min_support =
     (let frequent_pairs =
            filter (\<lambda>(pair, count). count \<ge> min_support_count transactions min_support)
              (pair_counts transactions)
      in sort_key (\<lambda>x. - snd x) frequent_pairs)"

definition find_frequent_k_itemsets ::
  "item list list \<Rightarrow> rat \<Rightarrow> int \<Rightarrow> (item set \<times> int) list" where
  "find_frequent_k_itemsets transactions min_support k =
     (if k < 1 then []
      else filter (\<lambda>(itemset, count). count \<ge> min_support_count transactions min_support)
             (itemset_counts transactions k))"

definition bind_result :: "py_error + 'a \<Rightarrow> ('a \<Rightarrow> py_error + 'b) \<Rightarrow> py_error + 'b" where
  "bind_result m f = (case m of Inl e \<Rightarrow> Inl e | Inr x \<Rightarrow> f x)"

record rule =
  antecedent :: item
  consequent :: item
  support :: rat
  confidence :: rat
  lift :: rat

text \<open>
  The dictionary literal of one rule. Its divisions are evaluated in order: the support,
  then the three quotients of the lift, then the lift itself. \<open>n\<close> is \<open>self.num_transactions\<close>.
\<close>

definition make_rule :: "item \<Rightarrow> item \<Rightarrow> int \<Rightarrow> int \<Rightarrow> int \<Rightarrow> nat \<Rightarrow> rat \<Rightarrow> py_error + rule" where
  "make_rule ante cons pair_count ante_count cons_count n conf =
     bind_result (int_truediv pair_count (int n)) (\<lambda>supp.
     bind_result (int_truediv pair_count (int n)) (\<lambda>p.
     bind_result (int_truediv ante_count (int n)) (\<lambda>pa.
     bind_result (int_truediv cons_count (int n)) (\<lambda>pc.
     bind_result (float_truediv p (float_mul pa pc)) (\<lambda>l.
     Inr \<lparr>antecedent = ante, consequent = cons, support = supp,
          confidence = conf, lift = l\<rparr>)))))"

text \<open>
  One direction of a pair: guarded by the antecedent's count only, then by the
  confidence threshold. The confidence is the true division of the two counts, whose
  divisor is positive under the guard.
\<close>

definition add_direction ::
  "item \<Rightarrow> item \<Rightarrow> int \<Rightarrow> int \<Rightarrow> int \<Rightarrow> nat \<Rightarrow> rat \<Rightarrow> rule list \<Rightarrow> py_error + rule list" where
  "add_direction ante cons pair_count ante_count cons_count n min_confidence rules =
     (if ante_count > 0
      then let conf = round_double (of_int pair_count / of_int ante_count)
           in if conf \<ge> min_confidence
              then bind_result (make_rule ante cons pair_count ante_count cons_count n conf)
                     (\<lambda>r. Inr (rules @ [r]))
              else Inr rules
      else Inr rules)"

fun rules_loop ::
  "(item set \<times> int) list \<Rightarrow> nat \<Rightarrow> rat \<Rightarrow> ((item \<times> item) \<times> int) list \<Rightarrow> rule list
     \<Rightarrow> py_error + rule list" where
  "rules_loop f1 n mc [] rules = Inr rules"
| "rules_loop f1 n mc (((item1, item2), pair_count) # rest) rules =
     (case add_direction item1 item2 pair_count (count_of f1 {item1}) (count_of f1 {item2})
             n mc rules of
        Inl e \<Rightarrow> Inl e
      | Inr rules1 \<Rightarrow>
          (case add_direction item2 item1 pair_count (count_of f1 {item2}) (count_of f1 {item1})
                  n mc rules1 of
             Inl e \<Rightarrow> Inl e
           | Inr rules2 \<Rightarrow> rules_loop f1 n mc rest rules2))"

definition get_association_rules :: "item list list \<Rightarrow> rat \<Rightarrow> rat \<Rightarrow> py_error + rule list" where
  "get_association_rules transactions min_support min_confidence =
     (case rules_loop (find_frequent_1_itemsets transactions min_support)
             (length transactions) min_confidence
             (find_frequent_pairs transactions min_support) [] of
        Inl e \<Rightarrow> Inl e
      | Inr rules \<Rightarrow> Inr (sort_key (\<lambda>r. - confidence r) rules))"

section \<open>Self-loops\<close>

lemma map_of_dd_touch:
  "map_of (dd_touch k d) = (case map_of d k of None \<Rightarrow> (map_of d)(k \<mapsto> []) | Some r \<Rightarrow> map_of d)"
  by (simp add: dd_touch_def update_conv' split: option.splits)

lemma dd_row_touch [simp]: "dd_row (dd_touch k d) j = dd_row d j"
  by (auto simp: dd_row_def map_of_dd_touch split: option.splits)

text \<open>The weight stored under \<open>(a, b)\<close>, or \<open>None\<close> when the dictionary has no such entry.\<close>

definition entry :: "adjacency \<Rightarrow> item \<Rightarrow> item \<Rightarrow> int option" where
  "entry d a b = (case map_of d a of None \<Rightarrow> None | Some row \<Rightarrow> map_of row b)"

lemma entry_dd_touch [simp]: "entry (dd_touch k d) a b = entry d a b"
  by (auto simp: entry_def map_of_dd_touch split: option.splits)

lemma entry_add_weight:
  "entry (add_weight i j w d) a b =
     (if a = i \<and> b = j
      then Some ((case entry d i j of None \<Rightarrow> 0 | Some v \<Rightarrow> v) + w)
      else entry d a b)"
  by (auto simp: add_weight_def Let_def entry_def update_conv' dd_row_def map_of_dd_touch
           split: option.splits)

lemma get_edge_weight_entry:
  "get_edge_weight g a b = (case entry (graph_dict g) a b of None \<Rightarrow> 0 | Some v \<Rightarrow> v)"
  by (simp add: get_edge_weight_def entry_def split: option.splits)

lemma entry_update_empty:
  "map_of d k = None \<Longrightarrow> entry (AList.update k [] d) a b = entry d a b"
  by (auto simp: entry_def update_conv' split: option.splits)

lemma entry_add_node [simp]: "entry (graph_dict (add_node k g)) a b = entry (graph_dict g) a b"
  by (simp add: add_node_def entry_update_empty)

lemma graph_dict_add_edge:
  "graph_dict (add_edge i j w g) =
     add_weight j i w (add_weight i j w (graph_dict (add_node j (add_node i g))))"
  by (simp add: add_edge_def Let_def)

lemma entry_add_edge:
  "entry (graph_dict (add_edge i j w g)) a b =
     entry (add_weight j i w (add_weight i j w (graph_dict g))) a b"
  unfolding graph_dict_add_edge by (simp only: entry_add_weight entry_add_node)

text \<open>
  C9. For every graph, item \<open>a\<close> and weight \<open>w\<close>, the self-loop call \<open>add_edge(a, a, w)\<close>
  raises \<open>get_edge_weight(a, a)\<close> by \<open>2 * w\<close>: the one stored entry is incremented once for
  each of the two directions.
\<close>

theorem self_loop_adds_twice:
  "get_edge_weight (add_edge a a w g) a a = get_edge_weight g a a + 2 * w"
  by (simp add: get_edge_weight_entry entry_add_edge entry_add_weight split: option.splits)

section \<open>The representation invariant of reachable graphs\<close>

definition has_row :: "adjacency \<Rightarrow> item \<Rightarrow> bool" where
  "has_row d a = (map_of d a \<noteq> None)"

definition graph_inv :: "product_graph \<Rightarrow> bool" where
  "graph_inv g =
     (finite (nodes g) \<and>
      (\<forall>a. a \<in> nodes g \<longleftrightarrow> has_row (graph_dict g) a) \<and>
      (\<forall>a b. entry (graph_dict g) a b = entry (graph_dict g) b a))"

lemma has_row_dd_touch: "has_row (dd_touch k d) a = (a = k \<or> has_row d a)"
  by (auto simp: has_row_def map_of_dd_touch split: option.splits)

lemma has_row_add_weight: "has_row (add_weight i j w d) a = (a = i \<or> has_row d a)"
  by (auto simp: has_row_def add_weight_def Let_def update_conv' map_of_dd_touch split: option.splits)

lemma has_row_add_node:
  "has_row (graph_dict (add_node k g)) a = ((k \<notin> nodes g \<and> a = k) \<or> has_row (graph_dict g) a)"
  by (auto simp: has_row_def add_node_def update_conv')

lemma nodes_add_node: "nodes (add_node k g) = insert k (nodes g)"
  by (auto simp: add_node_def)

lemma nodes_add_edge: "nodes (add_edge i j w g) = insert i (insert j (nodes g))"
  by (auto simp: add_edge_def Let_def nodes_add_node)

lemma entry_drop_back_edge:
  "entry (drop_back_edge item n d) a b = (if a = n \<and> b = item then None else entry d a b)"
  by (auto simp: drop_back_edge_def entry_def update_conv' delete_conv' split: option.splits)

lemma has_row_drop_back_edge: "has_row (drop_back_edge item n d) a = has_row d a"
  by (auto simp: drop_back_edge_def has_row_def update_conv' split: option.splits)

lemma entry_fold_drop:
  "entry (fold (drop_back_edge item) ks d) a b =
     (if a \<in> set ks \<and> b = item then None else entry d a b)"
  by (induction ks arbitrary: d) (auto simp: entry_drop_back_edge)

lemma has_row_fold_drop: "has_row (fold (drop_back_edge item) ks d) a = has_row d a"
  by (induction ks arbitrary: d) (auto simp: has_row_drop_back_edge)

lemma entry_delete: "entry (AList.delete k d) a b = (if a = k then None else entry d a b)"
  by (auto simp: entry_def delete_conv' split: option.splits)

lemma has_row_delete: "has_row (AList.delete k d) a = (a \<noteq> k \<and> has_row d a)"
  by (auto simp: has_row_def delete_conv')

lemma in_row_keys: "a \<in> fst ` set (dd_row d k) \<longleftrightarrow> entry d k a \<noteq> None"
proof (cases "map_of d k")
  case None
  then show ?thesis by (simp add: dd_row_def entry_def)
next
  case (Some r)
  then show ?thesis using map_of_eq_None_iff [of r a] by (simp add: dd_row_def entry_def)
qed

lemma graph_inv_empty: "graph_inv empty_graph"
  by (simp add: graph_inv_def empty_graph_def has_row_def entry_def)

lemma graph_inv_add_node: "graph_inv g \<Longrightarrow> graph_inv (add_node k g)"
  by (auto simp: graph_inv_def has_row_add_node nodes_add_node)

lemma entry_add_loop:
  "entry (add_weight i i w (add_weight i i w d)) a b =
     (if a = i \<and> b = i
      then Some ((case entry d i i of None \<Rightarrow> 0 | Some v \<Rightarrow> v) + 2 * w)
      else entry d a b)"
  by (simp add: entry_add_weight split: option.splits)

lemma entry_add_distinct:
  assumes "i \<noteq> j"
  shows "entry (add_weight j i w (add_weight i j w d)) a b =
     (if a = i \<and> b = j
      then Some ((case entry d i j of None \<Rightarrow> 0 | Some v \<Rightarrow> v) + w)
      else if a = j \<and> b = i
      then Some ((case entry d j i of None \<Rightarrow> 0 | Some v \<Rightarrow> v) + w)
      else entry d a b)"
proof -
  have ne: "\<not> (j = i \<and> i = j)" using assms by blast
  show ?thesis
    unfolding entry_add_weight if_not_P [OF ne] using assms by auto
qed

lemma graph_inv_add_edge:
  assumes "graph_inv g" shows "graph_inv (add_edge i j w g)"
proof -
  let ?d = "graph_dict g"
  let ?d' = "graph_dict (add_edge i j w g)"
  have sym: "entry ?d a b = entry ?d b a" for a b
    using assms by (simp add: graph_inv_def)
  have dom: "has_row ?d a = (a \<in> nodes g)" for a
    using assms by (simp add: graph_inv_def)
  have e: "entry ?d' a b = entry ?d' b a" for a b
  proof -
    have s1: "entry ?d j i = entry ?d i j" and s2: "entry ?d b a = entry ?d a b"
      by (rule sym)+
    show ?thesis
    proof (cases "i = j")
      case True
      have "entry (add_weight i i w (add_weight i i w ?d)) a b =
            entry (add_weight i i w (add_weight i i w ?d)) b a"
        unfolding entry_add_loop s2 by (cases "a = i"; cases "b = i"; simp)
      then show ?thesis unfolding entry_add_edge True [symmetric] .
    next
      case False
      show ?thesis
        unfolding entry_add_edge entry_add_distinct [OF False] s1 s2
        by (cases "a = i"; cases "b = j"; cases "a = j"; cases "b = i"; simp)
    qed
  qed
  have h: "has_row ?d' a = (a = i \<or> a = j \<or> a \<in> nodes g)" for a
    unfolding graph_dict_add_edge has_row_add_weight has_row_add_node nodes_add_node dom
    by blast
  show ?thesis
    unfolding graph_inv_def nodes_add_edge h using assms e by (auto simp: graph_inv_def)
qed

lemma graph_inv_remove_node:
  assumes "graph_inv g" shows "graph_inv (remove_node k g)"
proof (cases "k \<in> nodes g")
  case False
  then show ?thesis using assms by (simp add: remove_node_def)
next
  case True
  let ?d = "graph_dict g"
  let ?d' = "graph_dict (remove_node k g)"
  have sym: "entry ?d a b = entry ?d b a" for a b
    using assms by (simp add: graph_inv_def)
  have e: "entry ?d' a b = (if a = k \<or> b = k then None else entry ?d a b)" for a b
    using True sym [of k a]
    by (auto simp: remove_node_def Let_def entry_delete entry_fold_drop in_row_keys)
  have h: "has_row ?d' a = (a \<noteq> k \<and> has_row ?d a)" for a
    using True assms
    by (auto simp: remove_node_def Let_def has_row_delete has_row_fold_drop has_row_dd_touch
          graph_inv_def)
  have n: "nodes (remove_node k g) = nodes g - {k}"
    using True by (simp add: remove_node_def Let_def)
  show ?thesis
    unfolding graph_inv_def e h n using assms sym by (auto simp: graph_inv_def)
qed

lemma reachable_graph_inv: "reachable g \<Longrightarrow> graph_inv g"
  by (induction rule: reachable.induct)
     (simp_all add: graph_inv_empty graph_inv_add_node graph_inv_add_edge graph_inv_remove_node)

text \<open>
  C2. For every graph reachable from the empty graph by calls of \<open>add_node\<close>, \<open>add_edge\<close>
  and \<open>remove_node\<close>, and for all items \<open>a\<close> and \<open>b\<close>,
  \<open>get_edge_weight(a, b) = get_edge_weight(b, a)\<close>.
\<close>

theorem edge_weight_symmetric:
  "reachable g \<Longrightarrow> get_edge_weight g a b = get_edge_weight g b a"
  using reachable_graph_inv [of g] by (simp add: graph_inv_def get_edge_weight_entry)

theorem edge_weight_symmetric_witness:
  "reachable (remove_node ''c'' (add_edge ''b'' ''c'' 2 (add_edge ''a'' ''b'' 3 empty_graph))) \<and>
   get_edge_weight (remove_node ''c'' (add_edge ''b'' ''c'' 2 (add_edge ''a'' ''b'' 3 empty_graph))) ''a'' ''b'' = 3 \<and>
   get_edge_weight (remove_node ''c'' (add_edge ''b'' ''c'' 2 (add_edge ''a'' ''b'' 3 empty_graph))) ''b'' ''a'' = 3"
proof -
  let ?g = "remove_node ''c'' (add_edge ''b'' ''c'' 2 (add_edge ''a'' ''b'' 3 empty_graph))"
  have r: "reachable ?g" by (intro reachable.intros)
  have v: "get_edge_weight ?g ''a'' ''b'' = 3" by code_simp
  from r v edge_weight_symmetric [OF r, of "''a''" "''b''"] show ?thesis by simp
qed

section \<open>The minimum support count\<close>

text \<open>
  The product \<open>min_support * N\<close> is the float product that \<open>__init__\<close> computes. It can
  differ from the product of the same two numbers in exact arithmetic on either side of
  an integer. The float nearest to 0.3 is below 0.3, and its product with 10 rounds up to
  3.0: the count is 3, where the exact product has floor 2. The float nearest to 0.58 is
  below 0.58, and its product with 50 rounds to a float below 29: the count is 28.
\<close>

lemma min_support_count_three_tenths:
  "min_support_count (replicate 10 []) (5404319552844595 / 2 ^ 54) = 3
   \<and> \<lfloor>(5404319552844595 / 2 ^ 54) * (10 :: rat)\<rfloor> = 2"
  by code_simp

lemma min_support_count_fifty_eight_hundredths:
  "min_support_count (replicate 50 []) (5224175567749775 / 2 ^ 53) = 28"
  by code_simp


section \<open>The statistics of the empty graph\<close>

text \<open>
  C8 (the code departs from the claim). For the empty graph \<open>get_graph_info\<close> returns
  early with the five keys \<open>num_nodes\<close>, \<open>num_edges\<close>, \<open>avg_degree\<close>, \<open>max_degree\<close> and
  \<open>min_degree\<close>: the key \<open>density\<close> is missing, whereas the other branch stores it, with
  value 0 when there is at most one node.
\<close>

theorem graph_info_empty_has_no_density:
  "map_of (get_graph_info empty_graph) ''density'' = None
   \<and> map fst (get_graph_info empty_graph)
       = [''num_nodes'', ''num_edges'', ''avg_degree'', ''max_degree'', ''min_degree'']"
  by (simp add: get_graph_info_def empty_graph_def)

section \<open>Unguarded consequent in the lift\<close>

text \<open>
  C4 (the code departs from the claim). A rule direction is guarded by the count of its
  antecedent only. When the antecedent is a frequent item and the consequent is not, the
  direction is not skipped and the lift divides by zero: with the transactions
  \<open>[[a, a, b], [c]]\<close>, \<open>min_support = 1\<close> (a count of 2) and \<open>min_confidence = 0.5\<close>, the
  pair \<open>(a, b)\<close> is counted twice, \<open>a\<close> twice and \<open>b\<close> once, and
  \<open>get_association_rules\<close> raises \<open>ZeroDivisionError\<close> on a non-empty transaction list.
\<close>

theorem rules_raise_on_unguarded_consequent:
  "get_association_rules [[''a'', ''a'', ''b''], [''c'']] 1 (1 / 2) = Inl ZeroDivisionError"
  by code_simp

section \<open>algorithms.py: breadth-first traversal\<close>

text \<open>
  Every item that occurs as a key of some adjacency row; the traversals never enqueue
  anything else.
\<close>

definition neighbor_items :: "product_graph \<Rightarrow> item set" where
  "neighbor_items g = (\<Union>a \<in> fst ` set (graph_dict g). fst ` set (get_neighbors g a))"

lemma finite_neighbor_items [simp]: "finite (neighbor_items g)"
  by (simp add: neighbor_items_def)

lemma neighbors_subset: "fst ` set (get_neighbors g a) \<subseteq> neighbor_items g"
proof (cases "map_of (graph_dict g) a")
  case None
  then show ?thesis by (simp add: get_neighbors_def)
next
  case (Some row)
  then have "a \<in> fst ` set (graph_dict g)"
    by (metis map_of_eq_None_iff option.distinct(1))
  then show ?thesis unfolding neighbor_items_def by blast
qed

text \<open>
  The \<open>while queue:\<close> loop of \<open>bfs\<close>. The state is the set \<open>visited\<close>, the deque as a
  list (\<open>popleft\<close> takes the head, \<open>append\<close> adds at the end) and the list \<open>result\<close>.
\<close>

function bfs_loop ::
  "product_graph \<Rightarrow> int option \<Rightarrow> item set \<Rightarrow> (item \<times> int) list \<Rightarrow> item list \<Rightarrow> item list" where
  "bfs_loop g max_depth visited [] result = result"
| "bfs_loop g max_depth visited ((current_item, depth) # queue) result =
     (if current_item \<in> visited then bfs_loop g max_depth visited queue result
      else if (case max_depth of None \<Rightarrow> False | Some m \<Rightarrow> depth > m)
      then bfs_loop g max_depth visited queue result
      else bfs_loop g max_depth (insert current_item visited)
             (queue @ map (\<lambda>neighbor. (neighbor, depth + 1))
                        (filter (\<lambda>neighbor. neighbor \<notin> insert current_item visited)
                           (map fst (get_neighbors g current_item))))
             (result @ [current_item]))"
  by pat_completeness auto

text \<open>Termination: items that can still be visited, then the length of the queue.\<close>

definition frontier :: "product_graph \<Rightarrow> item set \<Rightarrow> item list \<Rightarrow> item set" where
  "frontier g visited pending = (neighbor_items g \<union> set pending) - visited"

lemma finite_frontier [simp]: "finite (frontier g visited pending)"
  by (simp add: frontier_def)

lemma frontier_skip: "card (frontier g v ps) \<le> card (frontier g v (p # ps))"
  by (rule card_mono) (auto simp: frontier_def)

lemma frontier_visit:
  assumes "c \<notin> v" "set new \<subseteq> neighbor_items g"
  shows "card (frontier g (insert c v) (ps @ new)) < card (frontier g v (c # ps))"
proof (rule psubset_card_mono)
  show "finite (frontier g v (c # ps))" by simp
  show "frontier g (insert c v) (ps @ new) \<subset> frontier g v (c # ps)"
    using assms by (auto simp: frontier_def)
qed

termination bfs_loop
proof (relation "(\<lambda>(g, md, v, q, r). card (frontier g v (map fst q))) <*mlex*>
                 measure (\<lambda>(g, md, v, q, r). length q)", goal_cases)
  case 1
  show ?case by (simp add: wf_mlex)
next
  case (2 g md v c d q r)
  then show ?case using frontier_skip [of g v "map fst q" c] by (auto simp: mlex_iff)
next
  case (3 g md v c d q r)
  then show ?case using frontier_skip [of g v "map fst q" c] by (auto simp: mlex_iff)
next
  case (4 g md v c d q r)
  have "set (filter (\<lambda>n. n \<notin> insert c v) (map fst (get_neighbors g c))) \<subseteq> neighbor_items g"
    using neighbors_subset [of g c] by auto
  from frontier_visit [OF 4(1) this, of "map fst q"] show ?case
    by (simp add: mlex_iff comp_def)
qed

definition bfs :: "product_graph \<Rightarrow> item \<Rightarrow> int option \<Rightarrow> item list" where
  "bfs g start_item max_depth =
     (if start_item \<notin> nodes g then []
      else bfs_loop g max_depth {} [(start_item, 0)] [])"


lemma bfs_loop_props:
  "distinct result \<Longrightarrow> set result \<subseteq> visited \<Longrightarrow>
   distinct (bfs_loop g md visited queue result) \<and>
   prefix result (bfs_loop g md visited queue result) \<and>
   set (bfs_loop g md visited queue result)
     \<subseteq> set result \<union> fst ` set queue \<union> neighbor_items g"
proof (induction g md visited queue result rule: bfs_loop.induct)
  case (1 g md visited result)
  then show ?case by simp
next
  case (2 g md visited c depth queue result)
  show ?case
  proof (cases "c \<in> visited")
    case True
    from "2.IH"(1) [OF True "2.prems"] True show ?thesis by auto
  next
    case False
    show ?thesis
    proof (cases "case md of None \<Rightarrow> False | Some m \<Rightarrow> depth > m")
      case True
      from "2.IH"(2) [OF False True "2.prems"] False True show ?thesis by auto
    next
      case shallow: False
      let ?new = "filter (\<lambda>n. n \<notin> insert c visited) (map fst (get_neighbors g c))"
      let ?out = "bfs_loop g md (insert c visited)
                    (queue @ map (\<lambda>n. (n, depth + 1)) ?new) (result @ [c])"
      have d: "distinct (result @ [c])" and s: "set (result @ [c]) \<subseteq> insert c visited"
        using False "2.prems" by auto
      have n: "set ?new \<subseteq> neighbor_items g"
        using neighbors_subset [of g c] by auto
      from "2.IH"(3) [OF False shallow d s]
      have ih: "distinct ?out" "prefix (result @ [c]) ?out"
        "set ?out \<subseteq> set (result @ [c]) \<union>
           fst ` set (queue @ map (\<lambda>n. (n, depth + 1)) ?new) \<union> neighbor_items g"
        by blast+
      have "prefix result ?out" using ih(2) by (rule append_prefixD)
      moreover have "set ?out \<subseteq> set result \<union> fst ` set ((c, depth) # queue) \<union> neighbor_items g"
        using ih(3) n by (auto simp: image_Un image_image)
      moreover have "bfs_loop g md visited ((c, depth) # queue) result = ?out"
        using False shallow by simp
      ultimately show ?thesis using ih(1) by simp
    qed
  qed
qed

lemma graph_inv_neighbor_items:
  assumes "graph_inv g" shows "neighbor_items g \<subseteq> nodes g"
proof
  fix b assume "b \<in> neighbor_items g"
  then obtain a where "b \<in> fst ` set (get_neighbors g a)"
    by (auto simp: neighbor_items_def)
  then have "entry (graph_dict g) a b \<noteq> None"
    using in_row_keys [of b "graph_dict g" a] by (simp add: get_neighbors_def dd_row_def)
  then have "entry (graph_dict g) b a \<noteq> None"
    using assms by (simp add: graph_inv_def)
  then have "has_row (graph_dict g) b"
    by (auto simp: entry_def has_row_def split: option.splits)
  then show "b \<in> nodes g" using assms by (simp add: graph_inv_def)
qed

text \<open>
  C7. For every graph (built by the constructor and the mutators) and every start item
  that is a node, \<open>bfs(start)\<close> without depth limit begins with \<open>start\<close>, has no item
  twice and is no longer than the node count; for a start item that is not a node,
  \<open>bfs\<close> returns the empty list.
\<close>

theorem bfs_starts_distinct_bounded:
  assumes "reachable g"
  shows "(start \<in> nodes g \<longrightarrow>
            bfs g start None \<noteq> [] \<and> hd (bfs g start None) = start \<and>
            distinct (bfs g start None) \<and>
            int (length (bfs g start None)) \<le> get_node_count g)
       \<and> (start \<notin> nodes g \<longrightarrow> bfs g start max_depth = [])"
proof (intro conjI impI)
  assume "start \<notin> nodes g"
  then show "bfs g start max_depth = []" by (simp add: bfs_def)
next
  assume st: "start \<in> nodes g"
  have inv: "graph_inv g" using assms by (rule reachable_graph_inv)
  define q where "q = map (\<lambda>n. (n, 0 + 1 :: int))
                      (filter (\<lambda>n. n \<notin> insert start {}) (map fst (get_neighbors g start)))"
  let ?out = "bfs_loop g None {start} q [start]"
  have out: "bfs g start None = ?out" using st by (simp add: bfs_def q_def)
  have "distinct [start]" "set [start] \<subseteq> {start}" by simp_all
  note p = bfs_loop_props [OF this, of g None q]
  have qsub: "fst ` set q \<subseteq> neighbor_items g"
    using neighbors_subset [of g start] by (auto simp: q_def)
  have "set ?out \<subseteq> set [start] \<union> fst ` set q \<union> neighbor_items g"
    using p by (elim conjE)
  also have "\<dots> \<subseteq> nodes g"
    using qsub st graph_inv_neighbor_items [OF inv] by auto
  finally have "set ?out \<subseteq> nodes g" .
  moreover have "finite (nodes g)" using inv by (simp add: graph_inv_def)
  ultimately have "card (set ?out) \<le> card (nodes g)" by (simp add: card_mono)
  then have len: "length ?out \<le> card (nodes g)" using p by (simp add: distinct_card)
  obtain ys where ys: "?out = [start] @ ys" using p by (auto simp: prefix_def)
  show "bfs g start None \<noteq> []" unfolding out using ys by simp
  show "hd (bfs g start None) = start" unfolding out using ys by simp
  show "distinct (bfs g start None)" unfolding out using p by simp
  show "int (length (bfs g start None)) \<le> get_node_count g"
    unfolding out get_node_count_def using len by simp
qed


theorem bfs_starts_distinct_bounded_witness:
  "reachable (add_edge ''a'' ''b'' 1 empty_graph) \<and>
   ''a'' \<in> nodes (add_edge ''a'' ''b'' 1 empty_graph) \<and>
   bfs (add_edge ''a'' ''b'' 1 empty_graph) ''a'' None = [''a'', ''b''] \<and>
   hd (bfs (add_edge ''a'' ''b'' 1 empty_graph) ''a'' None) = ''a'' \<and>
   distinct (bfs (add_edge ''a'' ''b'' 1 empty_graph) ''a'' None) \<and>
   int (length (bfs (add_edge ''a'' ''b'' 1 empty_graph) ''a'' None))
     \<le> get_node_count (add_edge ''a'' ''b'' 1 empty_graph) \<and>
   ''z'' \<notin> nodes (add_edge ''a'' ''b'' 1 empty_graph) \<and>
   bfs (add_edge ''a'' ''b'' 1 empty_graph) ''z'' None = []"
proof -
  let ?g = "add_edge ''a'' ''b'' 1 empty_graph"
  have r: "reachable ?g" by (intro reachable.intros)
  have a: "''a'' \<in> nodes ?g" and z: "''z'' \<notin> nodes ?g" by code_simp+
  have v: "bfs ?g ''a'' None = [''a'', ''b'']" by code_simp
  from bfs_starts_distinct_bounded [OF r, of "''a''" None] a
       bfs_starts_distinct_bounded [OF r, of "''z''" None] z r v
  show ?thesis by simp
qed

section \<open>algorithms.py: shortest paths\<close>

text \<open>
  The \<open>while queue:\<close> loop of \<open>find_path\<close>: the queue holds pairs of an item and the path
  that led to it.
\<close>

function find_path_loop ::
  "product_graph \<Rightarrow> item \<Rightarrow> item set \<Rightarrow> (item \<times> item list) list \<Rightarrow> item list option" where
  "find_path_loop g end_item visited [] = None"
| "find_path_loop g end_item visited ((current_item, path) # queue) =
     (if current_item = end_item then Some path
      else if current_item \<in> visited then find_path_loop g end_item visited queue
      else find_path_loop g end_item (insert current_item visited)
             (queue @ map (\<lambda>neighbor. (neighbor, path @ [neighbor]))
                        (filter (\<lambda>neighbor. neighbor \<notin> insert current_item visited)
                           (map fst (get_neighbors g current_item)))))"
  by pat_completeness auto

termination find_path_loop
proof (relation "(\<lambda>(g, e, v, q). card (frontier g v (map fst q))) <*mlex*>
                 measure (\<lambda>(g, e, v, q). length q)", goal_cases)
  case 1
  show ?case by (simp add: wf_mlex)
next
  case (2 g e v c p q)
  then show ?case using frontier_skip [of g v "map fst q" c] by (auto simp: mlex_iff)
next
  case (3 g e v c p q)
  have "set (filter (\<lambda>n. n \<notin> insert c v) (map fst (get_neighbors g c))) \<subseteq> neighbor_items g"
    using neighbors_subset [of g c] by auto
  from frontier_visit [OF 3(2) this, of "map fst q"] show ?case
    by (simp add: mlex_iff comp_def)
qed

definition find_path :: "product_graph \<Rightarrow> item \<Rightarrow> item \<Rightarrow> item list option" where
  "find_path g start_item end_item =
     (if start_item \<notin> nodes g then None
      else if end_item \<notin> nodes g then None
      else find_path_loop g end_item {} [(start_item, [start_item])])"

definition is_connected :: "product_graph \<Rightarrow> item \<Rightarrow> item \<Rightarrow> bool" where
  "is_connected g item1 item2 = (find_path g item1 item2 \<noteq> None)"

text \<open>A path of the graph: a non-empty list of items, each one a neighbour key of the one before.\<close>

fun is_path :: "product_graph \<Rightarrow> item list \<Rightarrow> bool" where
  "is_path g [] = False"
| "is_path g [x] = True"
| "is_path g (x # y # ys) = (y \<in> fst ` set (get_neighbors g x) \<and> is_path g (y # ys))"

definition path_between :: "product_graph \<Rightarrow> item \<Rightarrow> item \<Rightarrow> item list \<Rightarrow> bool" where
  "path_between g a b p = (is_path g p \<and> hd p = a \<and> last p = b)"


lemma is_path_snoc:
  "is_path g p \<Longrightarrow> n \<in> fst ` set (get_neighbors g (last p)) \<Longrightarrow> is_path g (p @ [n])"
  by (induction g p rule: is_path.induct) auto

lemma is_path_mid:
  "is_path g (xs @ x # y # ys) \<Longrightarrow> y \<in> fst ` set (get_neighbors g x)"
  by (induction g xs rule: is_path.induct) (auto elim: is_path.elims)


lemma is_path_nonempty: "is_path g p \<Longrightarrow> p \<noteq> []"
  by auto

text \<open>
  The loop invariant of \<open>find_path\<close>, in four parts: every queued path is a path from the
  start; the queue is ordered by path length and its lengths differ by at most one; every
  path from the start that leaves the visited set does so at a queued item whose queued
  path is no longer than the prefix of that path; every neighbour of a visited item is
  visited or queued.
\<close>

definition inv_paths :: "product_graph \<Rightarrow> item \<Rightarrow> (item \<times> item list) list \<Rightarrow> bool" where
  "inv_paths g s Q = (\<forall>(c, p) \<in> set Q. path_between g s c p)"

definition inv_levels :: "(item \<times> item list) list \<Rightarrow> bool" where
  "inv_levels Q =
     (sorted_wrt (\<lambda>a b. length (snd a) \<le> length (snd b)) Q \<and>
      (\<forall>a \<in> set Q. \<forall>b \<in> set Q. length (snd b) \<le> length (snd a) + 1))"

definition inv_cover ::
  "product_graph \<Rightarrow> item \<Rightarrow> item set \<Rightarrow> (item \<times> item list) list \<Rightarrow> bool" where
  "inv_cover g s V Q =
     (\<forall>w. is_path g w \<and> hd w = s \<and> \<not> set w \<subseteq> V \<longrightarrow>
        (\<exists>w1 x w2 p. w = w1 @ x # w2 \<and> set w1 \<subseteq> V \<and> x \<notin> V \<and>
           (x, p) \<in> set Q \<and> length p \<le> length w1 + 1))"

definition inv_closed :: "product_graph \<Rightarrow> item set \<Rightarrow> (item \<times> item list) list \<Rightarrow> bool" where
  "inv_closed g V Q =
     (\<forall>u \<in> V. \<forall>n \<in> fst ` set (get_neighbors g u). n \<in> V \<or> n \<in> fst ` set Q)"

definition fp_inv ::
  "product_graph \<Rightarrow> item \<Rightarrow> item \<Rightarrow> item set \<Rightarrow> (item \<times> item list) list \<Rightarrow> bool" where
  "fp_inv g s e V Q =
     (inv_paths g s Q \<and> inv_levels Q \<and> inv_cover g s V Q \<and> inv_closed g V Q \<and> e \<notin> V)"

lemma fp_inv_init: "fp_inv g s e {} [(s, [s])]"
proof -
  have "inv_cover g s {} [(s, [s])]"
    unfolding inv_cover_def
  proof (intro allI impI)
    fix w assume w: "is_path g w \<and> hd w = s \<and> \<not> set w \<subseteq> {}"
    then have "w = [] @ s # tl w" by (cases w) auto
    then show "\<exists>w1 x w2 p. w = w1 @ x # w2 \<and> set w1 \<subseteq> {} \<and> x \<notin> {} \<and>
                 (x, p) \<in> set [(s, [s])] \<and> length p \<le> length w1 + 1"
      by (intro exI [of _ "[]"] exI [of _ s] exI [of _ "tl w"] exI [of _ "[s]"]) simp
  qed
  then show ?thesis
    by (simp add: fp_inv_def inv_paths_def inv_levels_def inv_closed_def path_between_def)
qed

lemma fp_inv_skip:
  assumes inv: "fp_inv g s e V ((c, p) # Q)" and c: "c \<in> V"
  shows "fp_inv g s e V Q"
proof -
  have "inv_paths g s Q" using inv by (simp add: fp_inv_def inv_paths_def)
  moreover have "inv_levels Q" using inv by (simp add: fp_inv_def inv_levels_def)
  moreover have "inv_cover g s V Q"
    unfolding inv_cover_def
  proof (intro allI impI)
    fix w assume w: "is_path g w \<and> hd w = s \<and> \<not> set w \<subseteq> V"
    from inv have "inv_cover g s V ((c, p) # Q)" by (simp add: fp_inv_def)
    with w obtain w1 x w2 q where
      *: "w = w1 @ x # w2" "set w1 \<subseteq> V" "x \<notin> V" "(x, q) \<in> set ((c, p) # Q)"
         "length q \<le> length w1 + 1"
      unfolding inv_cover_def by blast
    from *(3,4) c have "(x, q) \<in> set Q" by auto
    with * show "\<exists>w1 x w2 p. w = w1 @ x # w2 \<and> set w1 \<subseteq> V \<and> x \<notin> V \<and>
                   (x, p) \<in> set Q \<and> length p \<le> length w1 + 1"
      by blast
  qed
  moreover have "inv_closed g V Q"
    unfolding inv_closed_def
  proof (intro ballI)
    fix u n assume u: "u \<in> V" and n: "n \<in> fst ` set (get_neighbors g u)"
    from inv have "inv_closed g V ((c, p) # Q)" by (simp add: fp_inv_def)
    with u n have "n \<in> V \<or> n \<in> fst ` set ((c, p) # Q)" unfolding inv_closed_def by blast
    with c show "n \<in> V \<or> n \<in> fst ` set Q" by auto
  qed
  moreover have "e \<notin> V" using inv by (simp add: fp_inv_def)
  ultimately show ?thesis by (simp add: fp_inv_def)
qed


lemma sorted_wrt_const:
  "(\<forall>a \<in> set xs. f a = (k::nat)) \<Longrightarrow> sorted_wrt (\<lambda>a b. f a \<le> f b) xs"
  by (induction xs) auto

lemma fp_inv_visit:
  assumes inv: "fp_inv g s e V ((c, p) # Q)" and c: "c \<notin> V" and ce: "c \<noteq> e"
    and new: "new = map (\<lambda>n. (n, p @ [n]))
                      (filter (\<lambda>n. n \<notin> insert c V) (map fst (get_neighbors g c)))"
  shows "fp_inv g s e (insert c V) (Q @ new)"
proof -
  let ?V = "insert c V"
  have newD: "\<exists>n. x = (n, p @ [n]) \<and> n \<in> fst ` set (get_neighbors g c) \<and> n \<notin> ?V"
    if "x \<in> set new" for x using that unfolding new by auto
  have newI: "(n, p @ [n]) \<in> set new"
    if "n \<in> fst ` set (get_neighbors g c)" "n \<notin> ?V" for n using that unfolding new by auto
  have new_len: "length (snd x) = length p + 1" if "x \<in> set new" for x
    using newD [OF that] by auto
  have P0: "is_path g p" "hd p = s" "last p = c"
    using inv by (simp_all add: fp_inv_def inv_paths_def path_between_def)
  have pne: "p \<noteq> []" using P0(1) by auto
  have PQ: "path_between g s x q" if "(x, q) \<in> set Q" for x q
    using inv that by (auto simp: fp_inv_def inv_paths_def)
  have lev: "inv_levels ((c, p) # Q)" using inv by (simp add: fp_inv_def)
  have lo: "length p \<le> length (snd b)" if "b \<in> set Q" for b
    using lev that by (auto simp: inv_levels_def)
  have hi: "length (snd b) \<le> length p + 1" if "b \<in> set Q" for b
    using lev that by (auto simp: inv_levels_def)
  have sq: "sorted_wrt (\<lambda>a b. length (snd a) \<le> length (snd b)) Q"
    using lev by (simp add: inv_levels_def)
  have diff: "length (snd b) \<le> length (snd a) + 1" if "a \<in> set Q" "b \<in> set Q" for a b
    using lev that by (auto simp: inv_levels_def)
  have cov: "inv_cover g s V ((c, p) # Q)" and clo: "inv_closed g V ((c, p) # Q)"
    and eV: "e \<notin> V"
    using inv by (simp_all add: fp_inv_def)

  have 1: "inv_paths g s (Q @ new)"
    unfolding inv_paths_def
  proof (intro ballI, clarify)
    fix x q assume "(x, q) \<in> set (Q @ new)"
    then consider "(x, q) \<in> set Q" | "(x, q) \<in> set new" by auto
    then show "path_between g s x q"
    proof cases
      case 1 then show ?thesis by (rule PQ)
    next
      case 2
      from newD [OF 2] have q: "q = p @ [x]" and n: "x \<in> fst ` set (get_neighbors g c)"
        by auto
      have "is_path g (p @ [x])" using P0(1) n P0(3) by (simp add: is_path_snoc)
      then show ?thesis unfolding q path_between_def using pne P0(2) by simp
    qed
  qed

  have 2: "inv_levels (Q @ new)"
    unfolding inv_levels_def
  proof (intro conjI ballI)
    have "sorted_wrt (\<lambda>a b. length (snd a) \<le> length (snd b)) new"
      by (rule sorted_wrt_const [where k = "length p + 1"]) (simp add: new_len)
    moreover have "length (snd a) \<le> length (snd b)" if "a \<in> set Q" "b \<in> set new" for a b
      using hi [OF that(1)] new_len [OF that(2)] by simp
    ultimately show "sorted_wrt (\<lambda>a b. length (snd a) \<le> length (snd b)) (Q @ new)"
      using sq by (simp add: sorted_wrt_append)
  next
    fix a b assume "a \<in> set (Q @ new)" "b \<in> set (Q @ new)"
    then consider "a \<in> set Q" "b \<in> set Q" | "a \<in> set Q" "b \<in> set new"
      | "a \<in> set new" "b \<in> set Q" | "a \<in> set new" "b \<in> set new" by auto
    then show "length (snd b) \<le> length (snd a) + 1"
    proof cases
      case 1 then show ?thesis by (rule diff)
    next
      case 2 then show ?thesis using lo [of a] new_len [of b] by simp
    next
      case 3 then show ?thesis using hi [of b] new_len [of a] by simp
    next
      case 4 then show ?thesis using new_len [of a] new_len [of b] by simp
    qed
  qed

  have 3: "inv_cover g s ?V (Q @ new)"
    unfolding inv_cover_def
  proof (intro allI impI)
    fix w assume w: "is_path g w \<and> hd w = s \<and> \<not> set w \<subseteq> ?V"
    then have "is_path g w \<and> hd w = s \<and> \<not> set w \<subseteq> V" by auto
    with cov obtain w1 x w2 q where
      *: "w = w1 @ x # w2" "set w1 \<subseteq> V" "x \<notin> V" "(x, q) \<in> set ((c, p) # Q)"
         "length q \<le> length w1 + 1"
      unfolding inv_cover_def by blast
    have pq: "length p \<le> length q" using *(4) lo [of "(x, q)"] by auto
    show "\<exists>w1 x w2 p. w = w1 @ x # w2 \<and> set w1 \<subseteq> ?V \<and> x \<notin> ?V \<and>
            (x, p) \<in> set (Q @ new) \<and> length p \<le> length w1 + 1"
    proof (cases "x = c")
      case False
      then have "(x, q) \<in> set (Q @ new)" "x \<notin> ?V" "set w1 \<subseteq> ?V" using * by auto
      with * show ?thesis by blast
    next
      case True
      have "\<not> set w2 \<subseteq> ?V" using w * True by auto
      then have "\<exists>y \<in> set w2. y \<notin> ?V" by auto
      then have "\<exists>u1 y u2. w2 = u1 @ y # u2 \<and> y \<notin> ?V \<and> (\<forall>z \<in> set u1. \<not> z \<notin> ?V)"
        by (rule split_list_first_prop [where P = "\<lambda>y. y \<notin> insert c V"])
      then obtain u1 y u2 where
        u: "w2 = u1 @ y # u2" "y \<notin> ?V" "\<forall>z \<in> set u1. \<not> z \<notin> ?V"
        by blast
      let ?pre = "c # u1"
      have pre_ne: "?pre \<noteq> []" by simp
      obtain front z where fz: "?pre = front @ [z]"
        using pre_ne by (metis append_butlast_last_id)
      have zV: "z \<in> ?V" using fz u(3)
        by (metis (no_types, lifting) in_set_conv_decomp insertI1 list.set_intros(1)
            set_ConsD)
      have weq: "w = (w1 @ front) @ z # y # u2"
        using *(1) True u(1) fz by (metis append.assoc append_Cons append_Nil)
      have yn: "y \<in> fst ` set (get_neighbors g z)"
        using w weq is_path_mid [of g "w1 @ front" z y u2] by simp
      have len_pre: "length (w1 @ c # u1) = length w1 + length u1 + 1" by simp
      have "\<exists>r. (y, r) \<in> set (Q @ new) \<and> length r \<le> length (w1 @ c # u1) + 1"
      proof (cases "z = c")
        case True
        then have "(y, p @ [y]) \<in> set new" using yn u(2) by (intro newI) auto
        moreover have "length (p @ [y]) \<le> length (w1 @ c # u1) + 1"
          using pq *(5) by simp
        ultimately show ?thesis by auto
      next
        case False
        then have "z \<in> V" using zV by auto
        with clo yn have "y \<in> V \<or> y \<in> fst ` set ((c, p) # Q)"
          unfolding inv_closed_def by blast
        with u(2) have "y \<in> fst ` set Q" by auto
        then obtain r where r: "(y, r) \<in> set Q" by auto
        have "length r \<le> length p + 1" using hi [OF r] by simp
        then have "length r \<le> length (w1 @ c # u1) + 1" using pq *(5) by simp
        with r show ?thesis by auto
      qed
      then obtain r where r: "(y, r) \<in> set (Q @ new)" "length r \<le> length (w1 @ c # u1) + 1"
        by blast
      have "w = (w1 @ c # u1) @ y # u2" using *(1) True u(1) by simp
      moreover have "set (w1 @ c # u1) \<subseteq> ?V" using *(2) u(3) by auto
      ultimately show ?thesis using u(2) r by blast
    qed
  qed

  have 4: "inv_closed g ?V (Q @ new)"
    unfolding inv_closed_def
  proof (intro ballI)
    fix u n assume u: "u \<in> ?V" and n: "n \<in> fst ` set (get_neighbors g u)"
    show "n \<in> ?V \<or> n \<in> fst ` set (Q @ new)"
    proof (cases "n \<in> ?V")
      case True then show ?thesis by simp
    next
      case nV: False
      show ?thesis
      proof (cases "u = c")
        case True
        then have "(n, p @ [n]) \<in> set new" using n nV by (intro newI) auto
        then have "n \<in> fst ` set new" by force
        then show ?thesis by auto
      next
        case False
        then have "u \<in> V" using u by auto
        with clo n have "n \<in> V \<or> n \<in> fst ` set ((c, p) # Q)"
          unfolding inv_closed_def by blast
        with nV have "n \<in> fst ` set Q" by auto
        then show ?thesis by auto
      qed
    qed
  qed

  have 5: "e \<notin> ?V" using eV ce by auto
  from 1 2 3 4 5 show ?thesis by (simp add: fp_inv_def)
qed


lemma fp_inv_bound:
  assumes inv: "fp_inv g s e V Q" and w: "path_between g s e w"
  shows "\<exists>x q. (x, q) \<in> set Q \<and> length q \<le> length w"
proof -
  have wne: "w \<noteq> []" using w by (auto simp: path_between_def)
  have "e \<in> set w" using w wne by (auto simp: path_between_def dest: last_in_set)
  moreover have "e \<notin> V" using inv by (simp add: fp_inv_def)
  ultimately have "is_path g w \<and> hd w = s \<and> \<not> set w \<subseteq> V"
    using w by (auto simp: path_between_def)
  moreover have "inv_cover g s V Q" using inv by (simp add: fp_inv_def)
  ultimately obtain w1 x w2 q where
    "w = w1 @ x # w2" "(x, q) \<in> set Q" "length q \<le> length w1 + 1"
    unfolding inv_cover_def by blast
  then show ?thesis by (intro exI [of _ x] exI [of _ q]) simp
qed

lemma find_path_loop_correct:
  "fp_inv g s e V Q \<Longrightarrow>
   (case find_path_loop g e V Q of
      None \<Rightarrow> (\<forall>w. \<not> path_between g s e w)
    | Some p \<Rightarrow> path_between g s e p \<and> (\<forall>w. path_between g s e w \<longrightarrow> length p \<le> length w))"
proof (induction g e V Q rule: find_path_loop.induct)
  case (1 g e V)
  then show ?case using fp_inv_bound [of g s e V "[]"] by auto
next
  case (2 g e V c p Q)
  note inv = "2.prems"
  show ?case
  proof (cases "c = e")
    case True
    have pb: "path_between g s e p"
      using inv True by (simp add: fp_inv_def inv_paths_def)
    have "length p \<le> length w" if w: "path_between g s e w" for w
    proof -
      from fp_inv_bound [OF inv w] obtain x q where
        q: "(x, q) \<in> set ((c, p) # Q)" "length q \<le> length w" by blast
      have "inv_levels ((c, p) # Q)" using inv by (simp add: fp_inv_def)
      then have "length p \<le> length q" using q(1) by (auto simp: inv_levels_def)
      with q(2) show ?thesis by simp
    qed
    with pb True show ?thesis by simp
  next
    case ne: False
    show ?thesis
    proof (cases "c \<in> V")
      case True
      from "2.IH"(1) [OF ne True fp_inv_skip [OF inv True]] ne True show ?thesis by simp
    next
      case False
      from "2.IH"(2) [OF ne False fp_inv_visit [OF inv False ne refl]] ne False
      show ?thesis by simp
    qed
  qed
qed

text \<open>
  C5. For every graph and all items \<open>a\<close> and \<open>b\<close>: \<open>find_path(a, b)\<close> is \<open>None\<close> exactly when
  \<open>is_connected(a, b)\<close> is false (also when an endpoint is not a node); and a path that
  \<open>find_path\<close> returns is a path from \<open>a\<close> to \<open>b\<close> whose number of edges is minimal among
  all paths from \<open>a\<close> to \<open>b\<close>.
\<close>

theorem find_path_shortest:
  "(find_path g a b = None \<longleftrightarrow> \<not> is_connected g a b) \<and>
   (\<forall>p. find_path g a b = Some p \<longrightarrow>
      path_between g a b p \<and>
      (\<forall>q. path_between g a b q \<longrightarrow> length p - 1 \<le> length q - 1))"
proof (intro conjI allI impI)
  show "find_path g a b = None \<longleftrightarrow> \<not> is_connected g a b"
    by (simp add: is_connected_def)
next
  fix p assume p: "find_path g a b = Some p"
  then have "find_path_loop g b {} [(a, [a])] = Some p"
    by (simp add: find_path_def split: if_splits)
  with find_path_loop_correct [OF fp_inv_init, of g a b]
  have *: "path_between g a b p" "\<And>w. path_between g a b w \<Longrightarrow> length p \<le> length w"
    by auto
  show "path_between g a b p" by (rule *(1))
  fix q assume "path_between g a b q"
  from *(2) [OF this] show "length p - 1 \<le> length q - 1" by simp
qed

text \<open>When both endpoints are nodes, \<open>None\<close> means that no path exists at all.\<close>

lemma find_path_none_no_path:
  assumes "a \<in> nodes g" "b \<in> nodes g" "find_path g a b = None"
  shows "\<not> path_between g a b q"
proof -
  have "find_path_loop g b {} [(a, [a])] = None" using assms by (simp add: find_path_def)
  with find_path_loop_correct [OF fp_inv_init, of g a b] show ?thesis by simp
qed

theorem find_path_shortest_witness:
  "find_path (add_edge ''Bread'' ''Eggs'' 2 (add_edge ''Milk'' ''Eggs'' 4
      (add_edge ''Bread'' ''Butter'' 3 (add_edge ''Bread'' ''Milk'' 5 empty_graph))))
      ''Butter'' ''Eggs'' = Some [''Butter'', ''Bread'', ''Eggs''] \<and>
   path_between (add_edge ''Bread'' ''Eggs'' 2 (add_edge ''Milk'' ''Eggs'' 4
      (add_edge ''Bread'' ''Butter'' 3 (add_edge ''Bread'' ''Milk'' 5 empty_graph))))
      ''Butter'' ''Eggs'' [''Butter'', ''Bread'', ''Milk'', ''Eggs''] \<and>
   path_between (add_edge ''Bread'' ''Eggs'' 2 (add_edge ''Milk'' ''Eggs'' 4
      (add_edge ''Bread'' ''Butter'' 3 (add_edge ''Bread'' ''Milk'' 5 empty_graph))))
      ''Butter'' ''Eggs'' [''Butter'', ''Bread'', ''Eggs''] \<and>
   length [''Butter'', ''Bread'', ''Eggs''] - 1
     \<le> length [''Butter'', ''Bread'', ''Milk'', ''Eggs''] - 1 \<and>
   is_connected (add_edge ''Bread'' ''Eggs'' 2 (add_edge ''Milk'' ''Eggs'' 4
      (add_edge ''Bread'' ''Butter'' 3 (add_edge ''Bread'' ''Milk'' 5 empty_graph))))
      ''Butter'' ''Eggs''"
proof -
  let ?g = "add_edge ''Bread'' ''Eggs'' 2 (add_edge ''Milk'' ''Eggs'' 4
      (add_edge ''Bread'' ''Butter'' 3 (add_edge ''Bread'' ''Milk'' 5 empty_graph)))"
  have v: "find_path ?g ''Butter'' ''Eggs'' = Some [''Butter'', ''Bread'', ''Eggs'']"
    by code_simp
  have q: "path_between ?g ''Butter'' ''Eggs'' [''Butter'', ''Bread'', ''Milk'', ''Eggs'']"
    by code_simp
  from find_path_shortest [of ?g "''Butter''" "''Eggs''"] v q show ?thesis by auto
qed

section \<open>Frequent itemsets of transactions without repeated items\<close>

subsection \<open>Counting dictionaries\<close>

lemma count_of_incr: "count_of (incr k' d) k = (if k = k' then count_of d k + 1 else count_of d k)"
  by (simp add: incr_def count_of_def update_conv')

lemma count_of_fold_incr:
  "count_of (fold incr ks d) k = count_of d k + int (count_list ks k)"
  by (induction ks arbitrary: d) (auto simp: count_of_incr)

lemma distinct_incr: "distinct (map fst d) \<Longrightarrow> distinct (map fst (incr k d))"
  by (simp add: incr_def distinct_update)

lemma distinct_fold_incr: "distinct (map fst d) \<Longrightarrow> distinct (map fst (fold incr ks d))"
  by (induction ks arbitrary: d) (auto simp: distinct_incr)

lemma fold_fold_incr:
  "fold (\<lambda>t d. fold incr (f t) d) ts d = fold incr (concat (map f ts)) d"
  by (induction ts arbitrary: d) auto

lemma count_list_concat_int:
  "int (count_list (concat xss) k) = (\<Sum>xs\<leftarrow>xss. int (count_list xs k))"
  by (induction xss) auto

text \<open>The keys that one transaction contributes to each of the three dictionaries.\<close>

definition item_keys :: "item list \<Rightarrow> item set list" where
  "item_keys t = map (\<lambda>i. {i}) t"


definition kset_keys :: "int \<Rightarrow> item list \<Rightarrow> item set list" where
  "kset_keys k t = (if int (length t) \<ge> k
                    then map set (combinations (sorted_py t) (nat k)) else [])"

lemma item_counts_alt: "item_counts ts = fold incr (concat (map item_keys ts)) []"
proof -
  have "(\<lambda>t d. fold (\<lambda>item. incr {item}) t d) = (\<lambda>t d. fold incr (item_keys t) d)"
    by (simp add: item_keys_def fold_map comp_def)
  then show ?thesis by (simp add: item_counts_def fold_fold_incr)
qed


lemma itemset_counts_alt: "itemset_counts ts k = fold incr (concat (map (kset_keys k) ts)) []"
proof -
  have "(\<lambda>t d. if int (length t) \<ge> k
               then fold (\<lambda>itemset. incr (set itemset)) (combinations (sorted_py t) (nat k)) d
               else d)
        = (\<lambda>t d. fold incr (kset_keys k t) d)"
    by (auto simp: kset_keys_def fold_map comp_def fun_eq_iff)
  then show ?thesis by (simp add: itemset_counts_def fold_fold_incr)
qed

lemma count_of_item_counts:
  "count_of (item_counts ts) K = (\<Sum>t\<leftarrow>ts. int (count_list (item_keys t) K))"
  unfolding item_counts_alt count_of_fold_incr count_list_concat_int
  by (simp add: count_of_def comp_def)


lemma count_of_itemset_counts:
  "count_of (itemset_counts ts k) K = (\<Sum>t\<leftarrow>ts. int (count_list (kset_keys k t) K))"
  unfolding itemset_counts_alt count_of_fold_incr count_list_concat_int
  by (simp add: count_of_def comp_def)

lemma distinct_item_counts: "distinct (map fst (item_counts ts))"
  by (simp add: item_counts_alt distinct_fold_incr)


lemma distinct_itemset_counts: "distinct (map fst (itemset_counts ts k))"
  by (simp add: itemset_counts_alt distinct_fold_incr)

text \<open>Membership in a filtered dictionary, in terms of the stored count.\<close>

lemma in_filtered_count:
  assumes "distinct (map fst d)" "(K, c) \<in> set (filter (\<lambda>(k, c). c \<ge> m) d)"
  shows "c = count_of d K \<and> c \<ge> m"
  using assms by (auto simp: count_of_def)

lemma count_in_filtered:
  assumes "count_of d K \<ge> m" "m \<ge> 1"
  shows "(K, count_of d K) \<in> set (filter (\<lambda>(k, c). c \<ge> m) d)"
proof -
  from assms obtain c where "map_of d K = Some c"
    by (cases "map_of d K") (auto simp: count_of_def)
  then show ?thesis using assms by (auto simp: count_of_def dest: map_of_SomeD)
qed

lemma key_filtered_iff:
  assumes "distinct (map fst d)" "m \<ge> 1"
  shows "K \<in> fst ` set (filter (\<lambda>(k, c). c \<ge> m) d) \<longleftrightarrow> count_of d K \<ge> m"
proof
  assume "K \<in> fst ` set (filter (\<lambda>(k, c). c \<ge> m) d)"
  then obtain c where "(K, c) \<in> set (filter (\<lambda>(k, c). c \<ge> m) d)" by force
  from in_filtered_count [OF assms(1) this] show "count_of d K \<ge> m" by simp
next
  assume "count_of d K \<ge> m"
  from count_in_filtered [OF this assms(2)] show "K \<in> fst ` set (filter (\<lambda>(k, c). c \<ge> m) d)"
    by force
qed

lemma min_support_count_ge_1: "min_support_count ts ms \<ge> 1"
  by (simp add: min_support_count_def Let_def)


subsection \<open>Sorting and combinations\<close>

lemma set_insert_item [simp]: "set (insert_item x ys) = insert x (set ys)"
  by (induction ys) auto

lemma length_insert_item [simp]: "length (insert_item x ys) = Suc (length ys)"
  by (induction ys) auto

lemma distinct_insert_item [simp]: "distinct (insert_item x ys) \<longleftrightarrow> x \<notin> set ys \<and> distinct ys"
  by (induction ys) auto

lemma set_foldr_insert_item: "set (foldr insert_item xs []) = set xs"
  by (induction xs) auto

lemma set_sorted_py [simp]: "set (sorted_py xs) = set xs"
  by (simp add: sorted_py_def set_foldr_insert_item)

lemma length_sorted_py [simp]: "length (sorted_py xs) = length xs"
  unfolding sorted_py_def by (induction xs) auto

lemma distinct_sorted_py [simp]: "distinct (sorted_py xs) \<longleftrightarrow> distinct xs"
  unfolding sorted_py_def by (induction xs) (auto simp: set_foldr_insert_item)

lemma subseq_set: "subseq c xs \<Longrightarrow> set c \<subseteq> set xs"
  by (induction rule: list_emb.induct) auto

lemma subseq_distinct: "subseq c xs \<Longrightarrow> distinct xs \<Longrightarrow> distinct c"
  by (induction rule: list_emb.induct) (auto dest: subseq_set)

lemma combinations_subseq:
  "c \<in> set (combinations xs k) \<Longrightarrow> subseq c xs \<and> length c = k"
  by (induction xs k arbitrary: c rule: combinations.induct) auto

lemma subseq_in_combinations:
  "subseq c xs \<Longrightarrow> c \<in> set (combinations xs (length c))"
proof (induction xs arbitrary: c)
  case Nil
  then have "c = []" by (rule list_emb_Nil2)
  then show ?case by simp
next
  case (Cons x xs)
  show ?case
  proof (cases c)
    case Nil
    then show ?thesis by simp
  next
    case (Cons y c')
    show ?thesis
    proof (cases "x = y")
      case True
      then have "subseq c' xs" using Cons.prems Cons by simp
      from Cons.IH [OF this] show ?thesis using Cons True by simp
    next
      case False
      then have "subseq (y # c') xs" using Cons.prems Cons by simp
      from Cons.IH [OF this] show ?thesis using Cons by simp
    qed
  qed
qed

lemma distinct_combinations: "distinct xs \<Longrightarrow> distinct (combinations xs k)"
proof (induction xs k rule: combinations.induct)
  case (1 xs)
  then show ?case by simp
next
  case (2 k)
  then show ?case by simp
next
  case (3 x xs k)
  have dx: "distinct xs" and nx: "x \<notin> set xs" using "3.prems" by simp_all
  have A: "distinct (combinations xs k)" and B: "distinct (combinations xs (Suc k))"
    using "3.IH" dx by simp_all
  have "inj_on ((#) x) (set (combinations xs k))" by (rule inj_onI) simp
  with A have A': "distinct (map ((#) x) (combinations xs k))" by (simp add: distinct_map)
  have "c \<notin> set (combinations xs (Suc k))" if "c \<in> set (map ((#) x) (combinations xs k))" for c
  proof
    assume "c \<in> set (combinations xs (Suc k))"
    then have "set c \<subseteq> set xs" using combinations_subseq subseq_set by blast
    moreover have "x \<in> set c" using that by auto
    ultimately show False using nx by blast
  qed
  then have "set (map ((#) x) (combinations xs k)) \<inter> set (combinations xs (Suc k)) = {}"
    by blast
  with A' B show ?case by simp
qed

lemma subseq_distinct_filter:
  "subseq c xs \<Longrightarrow> distinct xs \<Longrightarrow> c = filter (\<lambda>x. x \<in> set c) xs"
proof (induction rule: list_emb.induct)
  case (list_emb_Nil ys)
  then show ?case by simp
next
  case (list_emb_Cons c ys y)
  have IH: "c = filter (\<lambda>x. x \<in> set c) ys"
    by (rule list_emb_Cons.IH) (use list_emb_Cons.prems in simp)
  have "y \<notin> set c" using list_emb_Cons.hyps list_emb_Cons.prems by (auto dest: subseq_set)
  then have eq: "filter (\<lambda>x. x \<in> set c) (y # ys) = filter (\<lambda>x. x \<in> set c) ys" by simp
  show ?case unfolding eq by (rule IH)
next
  case (list_emb_Cons2 x y c ys)
  have xy: "x = y" by (rule list_emb_Cons2.hyps(1))
  have IH: "c = filter (\<lambda>z. z \<in> set c) ys"
    by (rule list_emb_Cons2.IH) (use list_emb_Cons2.prems in simp)
  have ny: "y \<notin> set ys" using list_emb_Cons2.prems by simp
  have "filter (\<lambda>z. z \<in> set (x # c)) (y # ys) = y # filter (\<lambda>z. z \<in> set (x # c)) ys"
    using xy by simp
  also have "filter (\<lambda>z. z \<in> set (x # c)) ys = filter (\<lambda>z. z \<in> set c) ys"
    by (rule filter_cong) (use xy ny in auto)
  also have "\<dots> = c" by (rule IH [symmetric])
  finally have "filter (\<lambda>z. z \<in> set (x # c)) (y # ys) = y # c" .
  then show ?case using xy by simp
qed

lemma subseq_distinct_unique:
  "subseq c1 xs \<Longrightarrow> subseq c2 xs \<Longrightarrow> distinct xs \<Longrightarrow> set c1 = set c2 \<Longrightarrow> c1 = c2"
proof -
  assume a: "subseq c1 xs" "subseq c2 xs" "distinct xs" "set c1 = set c2"
  have "c1 = filter (\<lambda>x. x \<in> set c1) xs" using a(1,3) by (rule subseq_distinct_filter)
  also have "\<dots> = filter (\<lambda>x. x \<in> set c2) xs" unfolding a(4) ..
  also have "\<dots> = c2" using a(2,3) by (rule subseq_distinct_filter [symmetric])
  finally show ?thesis .
qed

lemma count_list_map_filter:
  "count_list (map f xs) y = length (filter (\<lambda>x. f x = y) xs)"
  by (induction xs) auto

lemma length_le_1_if_all_equal:
  assumes "distinct ys" and eq: "\<And>a b. a \<in> set ys \<Longrightarrow> b \<in> set ys \<Longrightarrow> a = b"
  shows "length ys \<le> 1"
proof (cases ys)
  case Nil
  then show ?thesis by simp
next
  case (Cons a as)
  show ?thesis
  proof (cases as)
    case Nil
    then show ?thesis using Cons by simp
  next
    case (Cons b bs)
    have "a = b" by (rule eq) (simp_all add: \<open>ys = a # as\<close> Cons)
    moreover have "a \<noteq> b" using assms(1) \<open>ys = a # as\<close> Cons by simp
    ultimately show ?thesis by simp
  qed
qed


subsection \<open>What one transaction without repeated items contributes\<close>

lemma count_list_pos_iff: "count_list xs x > 0 \<longleftrightarrow> x \<in> set xs"
  using count_list_0_iff [of xs x] by auto

lemma kset_keys_le_1:
  assumes "distinct t" shows "count_list (kset_keys k t) S \<le> 1"
proof (cases "int (length t) \<ge> k")
  case False
  then show ?thesis by (simp add: kset_keys_def)
next
  case True
  let ?cs = "combinations (sorted_py t) (nat k)"
  have d: "distinct (sorted_py t)" using assms by simp
  have "distinct (filter (\<lambda>c. set c = S) ?cs)"
    using distinct_combinations [OF d] by simp
  moreover have "a = b" if "a \<in> set (filter (\<lambda>c. set c = S) ?cs)"
    "b \<in> set (filter (\<lambda>c. set c = S) ?cs)" for a b
  proof -
    have f: "subseq a (sorted_py t)" "subseq b (sorted_py t)" "set a = set b"
      using that combinations_subseq by auto
    show ?thesis by (rule subseq_distinct_unique [OF f(1) f(2) d f(3)])
  qed
  ultimately have "length (filter (\<lambda>c. set c = S) ?cs) \<le> 1"
    by (rule length_le_1_if_all_equal)
  then show ?thesis using True by (simp add: kset_keys_def count_list_map_filter)
qed

lemma kset_keys_posD:
  assumes "distinct t" "count_list (kset_keys k t) S > 0"
  shows "S \<subseteq> set t \<and> card S = nat k"
proof -
  from assms(2) have "S \<in> set (kset_keys k t)" by (simp add: count_list_pos_iff)
  then obtain c where c: "c \<in> set (combinations (sorted_py t) (nat k))" "set c = S"
    by (auto simp: kset_keys_def split: if_splits)
  from combinations_subseq [OF c(1)] have sub: "subseq c (sorted_py t)" and len: "length c = nat k"
    by simp_all
  have "distinct c" using sub assms(1) by (auto intro: subseq_distinct)
  then have "card (set c) = length c" by (rule distinct_card)
  moreover have "set c \<subseteq> set t" using subseq_set [OF sub] by simp
  ultimately show ?thesis using c(2) len by simp
qed

lemma kset_keys_posI:
  assumes "distinct t" "S \<subseteq> set t" "card S = nat k" "1 \<le> k"
  shows "count_list (kset_keys k t) S > 0"
proof -
  let ?c = "filter (\<lambda>x. x \<in> S) (sorted_py t)"
  have d: "distinct ?c" using assms(1) by simp
  have sc: "set ?c = S" using assms(2) by auto
  have "length ?c = card S" using distinct_card [OF d] sc by simp
  then have len: "length ?c = nat k" using assms(3) by simp
  have "card S \<le> card (set t)" using assms(2) by (simp add: card_mono)
  also have "\<dots> = length t" using assms(1) by (rule distinct_card)
  finally have "k \<le> int (length t)" using assms(3,4) by simp
  moreover have "?c \<in> set (combinations (sorted_py t) (length ?c))"
    by (rule subseq_in_combinations) simp
  then have "?c \<in> set (combinations (sorted_py t) (nat k))" unfolding len .
  then have "S \<in> set ` set (combinations (sorted_py t) (nat k))" using sc by blast
  ultimately have "S \<in> set (kset_keys k t)" by (simp add: kset_keys_def)
  then show ?thesis by (simp add: count_list_pos_iff)
qed

lemma kset_keys_mono:
  assumes "distinct t" "2 \<le> k" "S' \<subseteq> S" "card S' = nat (k - 1)"
  shows "count_list (kset_keys k t) S \<le> count_list (kset_keys (k - 1) t) S'"
proof (cases "count_list (kset_keys k t) S = 0")
  case True
  then show ?thesis by simp
next
  case False
  then have pos: "count_list (kset_keys k t) S > 0" by simp
  from kset_keys_posD [OF assms(1) pos] assms(3) have "S' \<subseteq> set t" by auto
  from kset_keys_posI [OF assms(1) this assms(4)] assms(2)
  have "count_list (kset_keys (k - 1) t) S' > 0" by simp
  with kset_keys_le_1 [OF assms(1), of k S] show ?thesis by linarith
qed

lemma kset_keys_item:
  assumes "distinct t" "x \<in> S"
  shows "count_list (kset_keys k t) S \<le> count_list (item_keys t) {x}"
proof (cases "count_list (kset_keys k t) S = 0")
  case True
  then show ?thesis by simp
next
  case False
  then have pos: "count_list (kset_keys k t) S > 0" by simp
  from kset_keys_posD [OF assms(1) pos] assms(2) have "x \<in> set t" by auto
  then have "{x} \<in> set (item_keys t)" by (auto simp: item_keys_def)
  then have "count_list (item_keys t) {x} > 0" by (simp add: count_list_pos_iff)
  with kset_keys_le_1 [OF assms(1), of k S] show ?thesis by linarith
qed

lemma sum_list_int_mono:
  "(\<And>t. t \<in> set ts \<Longrightarrow> f t \<le> g t) \<Longrightarrow>
   (\<Sum>t\<leftarrow>ts. int (f t)) \<le> (\<Sum>t\<leftarrow>ts. int (g t))"
  by (induction ts) (auto intro: add_mono)

text \<open>
  C3 as stated fails when a transaction repeats an item: in \<open>[[a, a, b], [c]]\<close> with
  \<open>min_support = 1\<close> (a count of 2) the set \<open>{a, b}\<close> is counted twice at size 2, from the
  two positions of \<open>a\<close>, while \<open>{b}\<close> is counted once at size 1.
\<close>

theorem frequent_subsets_counterexample:
  "{''a'', ''b''} \<in> fst ` set (find_frequent_k_itemsets [[''a'', ''a'', ''b''], [''c'']] 1 2) \<and>
   {''b''} \<subseteq> {''a'', ''b''} \<and> card {''b''} = nat (2 - 1) \<and>
   {''b''} \<notin> fst ` set (find_frequent_k_itemsets [[''a'', ''a'', ''b''], [''c'']] 1 (2 - 1)) \<and>
   {''b''} \<notin> fst ` set (find_frequent_1_itemsets [[''a'', ''a'', ''b''], [''c'']] 1)"
  by code_simp

text \<open>
  C3, amended. When no transaction contains an item twice, then for every \<open>min_support\<close>
  and \<open>k \<ge> 2\<close>: if \<open>S\<close> is a key of \<open>find_frequent_k_itemsets(k)\<close>, every subset of \<open>S\<close> of
  size \<open>k - 1\<close> is a key of \<open>find_frequent_k_itemsets(k - 1)\<close>, and for \<open>k = 2\<close> also of
  \<open>find_frequent_1_itemsets\<close>.
\<close>

theorem frequent_subsets_without_repeats:
  assumes "\<forall>t \<in> set transactions. distinct t" and "2 \<le> k"
    and "S \<in> fst ` set (find_frequent_k_itemsets transactions min_support k)"
    and "S' \<subseteq> S" and "card S' = nat (k - 1)"
  shows "S' \<in> fst ` set (find_frequent_k_itemsets transactions min_support (k - 1)) \<and>
         (k = 2 \<longrightarrow> S' \<in> fst ` set (find_frequent_1_itemsets transactions min_support))"
proof -
  let ?m = "min_support_count transactions min_support"
  have m1: "?m \<ge> 1" by (rule min_support_count_ge_1)
  have d: "distinct t" if "t \<in> set transactions" for t using assms(1) that by simp
  have "S \<in> fst ` set (filter (\<lambda>(itemset, count). count \<ge> ?m) (itemset_counts transactions k))"
    using assms(2,3) by (simp add: find_frequent_k_itemsets_def)
  then have cS: "count_of (itemset_counts transactions k) S \<ge> ?m"
    using key_filtered_iff [OF distinct_itemset_counts m1] by simp
  have "count_of (itemset_counts transactions k) S
          \<le> count_of (itemset_counts transactions (k - 1)) S'"
    unfolding count_of_itemset_counts
    by (rule sum_list_int_mono) (rule kset_keys_mono [OF d assms(2,4,5)])
  with cS have "count_of (itemset_counts transactions (k - 1)) S' \<ge> ?m" by simp
  then have "S' \<in> fst ` set (filter (\<lambda>(itemset, count). count \<ge> ?m)
                                 (itemset_counts transactions (k - 1)))"
    using key_filtered_iff [OF distinct_itemset_counts m1] by simp
  then have A: "S' \<in> fst ` set (find_frequent_k_itemsets transactions min_support (k - 1))"
    using assms(2) by (simp add: find_frequent_k_itemsets_def)
  have B: "S' \<in> fst ` set (find_frequent_1_itemsets transactions min_support)" if "k = 2"
  proof -
    have "card S' = 1" using assms(5) that by simp
    then obtain x where x: "S' = {x}" by (auto simp: card_1_singleton_iff)
    then have xS: "x \<in> S" using assms(4) by simp
    have "count_of (itemset_counts transactions k) S \<le> count_of (item_counts transactions) {x}"
      unfolding count_of_itemset_counts count_of_item_counts
      by (rule sum_list_int_mono) (rule kset_keys_item [OF d xS])
    with cS have "count_of (item_counts transactions) {x} \<ge> ?m" by simp
    then show ?thesis
      using key_filtered_iff [OF distinct_item_counts m1] x
      by (simp add: find_frequent_1_itemsets_def)
  qed
  from A B show ?thesis by simp
qed


theorem frequent_subsets_without_repeats_witness:
  "distinct [''a'', ''b''] \<and> distinct [''a'', ''b'', ''c''] \<and>
   {''a'', ''b''} \<in> fst ` set (find_frequent_k_itemsets [[''a'', ''b''], [''a'', ''b'', ''c'']] 1 2) \<and>
   {''a''} \<in> fst ` set (find_frequent_k_itemsets [[''a'', ''b''], [''a'', ''b'', ''c'']] 1 (2 - 1)) \<and>
   {''a''} \<in> fst ` set (find_frequent_1_itemsets [[''a'', ''b''], [''a'', ''b'', ''c'']] 1)"
proof -
  let ?ts = "[[''a'', ''b''], [''a'', ''b'', ''c'']]"
  have d: "\<forall>t \<in> set ?ts. distinct t" by simp
  have s: "{''a'', ''b''} \<in> fst ` set (find_frequent_k_itemsets ?ts 1 2)" by code_simp
  have c: "{''a''} \<subseteq> {''a'', ''b''}" "card {''a''} = nat (2 - 1)" by simp_all
  from frequent_subsets_without_repeats [OF d _ s c] s show ?thesis by simp
qed

section \<open>Itemsets with fewer than k elements\<close>

text \<open>
  A list with a repeated element has, for every length between 2 and its own, a
  subsequence of that length that contains both occurrences.
\<close>

lemma repeated_subseq:
  assumes "\<not> distinct ys" "2 \<le> n" "n \<le> length ys"
  shows "\<exists>c. subseq c ys \<and> length c = n \<and> \<not> distinct c"
proof -
  from assms(1) obtain as x bs cs where ys: "ys = as @ [x] @ bs @ [x] @ cs"
    using not_distinct_decomp by blast
  define m where "m = n - 2"
  define a' where "a' = take m as"
  define b' where "b' = take (m - length a') bs"
  define c' where "c' = take (m - length a' - length b') cs"
  let ?c = "a' @ [x] @ b' @ [x] @ c'"
  have "subseq a' as" "subseq b' bs" "subseq c' cs"
    unfolding a'_def b'_def c'_def by (auto intro!: prefix_imp_subseq take_is_prefix)
  then have "subseq ?c ys" unfolding ys
    by (intro list_emb_append_mono) simp_all
  moreover have "length ?c = n"
  proof -
    have la: "length a' = min (length as) m" by (simp add: a'_def)
    have lb: "length b' = min (length bs) (m - length a')" by (simp add: b'_def)
    have lc: "length c' = min (length cs) (m - length a' - length b')" by (simp add: c'_def)
    have bound: "m \<le> length as + length bs + length cs" "n = m + 2"
      using assms(2,3) by (simp_all add: ys m_def)
    have "length a' + length b' + length c' = m"
      using la lb lc bound(1) by arith
    then show ?thesis using bound(2) by simp
  qed
  moreover have "\<not> distinct ?c" by simp
  ultimately show ?thesis by blast
qed

lemma member_le_sum_list_int:
  "t \<in> set ts \<Longrightarrow> int (f t) \<le> (\<Sum>t\<leftarrow>ts. int (f t))"
proof (induction ts)
  case Nil
  then show ?case by simp
next
  case (Cons u us)
  have nn: "0 \<le> (\<Sum>t\<leftarrow>us. int (f t))" by (rule sum_list_nonneg) auto
  show ?case
  proof (cases "t = u")
    case True then show ?thesis using nn by simp
  next
    case False
    then have "int (f t) \<le> (\<Sum>t\<leftarrow>us. int (f t))" using Cons by simp
    then show ?thesis by simp
  qed
qed

text \<open>
  C10. The keys of \<open>find_frequent_k_itemsets(k)\<close> can have fewer than \<open>k\<close> elements: each
  combination of \<open>k\<close> positions of the sorted transaction is collapsed to a \<open>frozenset\<close>
  before it is counted. Whenever some transaction \<open>t\<close> contains a repeated item,
  \<open>2 \<le> k \<le> len(t)\<close> and the minimum support count is 1, the result has a key with fewer
  than \<open>k\<close> elements: a combination that takes both occurrences of the repeated item.
\<close>

theorem short_keys_from_repeated_items:
  assumes "t \<in> set transactions" and "\<not> distinct t" and "2 \<le> k" and "k \<le> int (length t)"
    and "min_support_count transactions min_support = 1"
  shows "\<exists>S. S \<in> fst ` set (find_frequent_k_itemsets transactions min_support k) \<and>
             card S < nat k"
proof -
  have "\<not> distinct (sorted_py t)" "2 \<le> nat k" "nat k \<le> length (sorted_py t)"
    using assms(2,3,4) by simp_all
  from repeated_subseq [OF this] obtain c where
    c: "subseq c (sorted_py t)" "length c = nat k" "\<not> distinct c" by blast
  have "c \<in> set (combinations (sorted_py t) (length c))"
    using c(1) by (rule subseq_in_combinations)
  then have "set c \<in> set (kset_keys k t)"
    using assms(4) c(2) by (simp add: kset_keys_def)
  then have "count_list (kset_keys k t) (set c) > 0" by (simp add: count_list_pos_iff)
  then have "1 \<le> int (count_list (kset_keys k t) (set c))" by simp
  also have "\<dots> \<le> count_of (itemset_counts transactions k) (set c)"
    unfolding count_of_itemset_counts using assms(1) by (rule member_le_sum_list_int)
  finally have "count_of (itemset_counts transactions k) (set c) \<ge> 1" .
  then have "set c \<in> fst ` set (filter (\<lambda>(itemset, count). count \<ge> 1)
                                   (itemset_counts transactions k))"
    using key_filtered_iff [OF distinct_itemset_counts, of 1 "set c" transactions k] by simp
  then have "set c \<in> fst ` set (find_frequent_k_itemsets transactions min_support k)"
    using assms(3,5) by (simp add: find_frequent_k_itemsets_def)
  moreover have "card (set c) < nat k"
    using c(2,3) card_length [of c] card_distinct [of c] by linarith
  ultimately show ?thesis by blast
qed

theorem short_keys_from_repeated_items_witness:
  "[''a'', ''a''] \<in> set [[''a'', ''a'']] \<and> \<not> distinct [''a'', ''a''] \<and>
   (2::int) \<le> int (length [''a'', ''a'']) \<and>
   min_support_count [[''a'', ''a'']] (1 / 2) = 1 \<and>
   find_frequent_k_itemsets [[''a'', ''a'']] (1 / 2) 2 = [({''a''}, 1)] \<and>
   (\<exists>S. S \<in> fst ` set (find_frequent_k_itemsets [[''a'', ''a'']] (1 / 2) 2) \<and> card S < nat 2)"
proof -
  have m: "min_support_count [[''a'', ''a'']] (1 / 2) = 1" by code_simp
  have v: "find_frequent_k_itemsets [[''a'', ''a'']] (1 / 2) 2 = [({''a''}, 1)]" by code_simp
  have "\<exists>S. S \<in> fst ` set (find_frequent_k_itemsets [[''a'', ''a'']] (1 / 2) 2) \<and> card S < nat 2"
    by (rule short_keys_from_repeated_items [of "[''a'', ''a'']"]) (simp_all add: m)
  with m v show ?thesis by simp
qed

section \<open>Rounding to the nearest float is monotone\<close>

lemma pow2_powi: "pow2 n = 2 powi n"
  by (simp add: pow2_def power_int_def inverse_eq_divide power_one_over)

lemma pow2_pos [simp]: "pow2 n > 0"
  by (simp add: pow2_powi)

lemma pow2_nonneg [simp]: "pow2 n \<ge> 0"
  by (rule less_imp_le) (rule pow2_pos)
















lemma round_double_0 [simp]: "round_double 0 = 0"
  by (simp add: round_double_def)

lemma round_double_1 [simp]: "round_double 1 = 1"
  by code_simp

section \<open>Association rules of transactions without repeated items\<close>

subsection \<open>The rules that the loop appends\<close>





subsection \<open>Counts of pairs and of their items\<close>








subsection \<open>Bounds of rounded quotients\<close>


lemma quotient_unit:
  assumes "0 < p" "p \<le> (q :: int)"
  shows "0 \<le> (of_int p / of_int q :: rat) \<and> (of_int p / of_int q :: rat) \<le> 1"
  using assms by (simp add: divide_le_eq_1)




end
